theory Spec2Isabelle
  imports Main "HOL-Library.Char_ord" "HOL-Library.List_Lexorder" "HOL-Library.Sublist"
begin

section \<open>cleanPlain.py: deleting plain qN.tex files from questions folders\<close>

text \<open>
  The script walks the sub-directories of a root, and in every \<^verbatim>\<open>questions\<close>
  folder it finds, unlinks the entries named \<^verbatim>\<open>q<digits>.tex\<close>. The embedding has
  four layers: names and the two regular expressions, a directory tree with the
  operations of \<^verbatim>\<open>pathlib\<close> the script calls, the two helper functions, and
  \<^verbatim>\<open>main\<close> as a state-passing function.
\<close>

subsection \<open>Names, the glob pattern and the two regular expressions\<close>

text \<open>
  A file name is a \<^typ>\<open>string\<close>: a list of 8-bit characters, read as the code
  points below 256 of a Python \<^verbatim>\<open>str\<close>. Python's \<^verbatim>\<open>\d\<close> matches every Unicode
  decimal digit; among these characters they are \<^verbatim>\<open>0\<close> to \<^verbatim>\<open>9\<close>.
\<close>

definition is_digit :: "char \<Rightarrow> bool" where
  "is_digit c = (c \<in> set ''0123456789'')"

text \<open>A literal piece of a pattern: the rest of the subject after it, if it is there.\<close>

fun lit :: "string \<Rightarrow> string \<Rightarrow> string option" where
  "lit [] s = Some s"
| "lit (p # ps) [] = None"
| "lit (p # ps) (c # cs) = (if p = c then lit ps cs else None)"

text \<open>
  \<^verbatim>\<open>\d+\<close>: greedy, at least one digit. Both patterns continue with a character
  that is no digit (\<^verbatim>\<open>\.\<close> or \<^verbatim>\<open>_\<close>), so giving digits back never helps and the
  longest run is the only one to try.
\<close>

definition digits1 :: "string \<Rightarrow> string option" where
  "digits1 s = (if takeWhile is_digit s = [] then None else Some (dropWhile is_digit s))"

text \<open>
  \<^verbatim>\<open>$\<close> without \<^verbatim>\<open>re.MULTILINE\<close>: the end of the string, or just before a
  newline that is the last character of the string.
\<close>

definition at_dollar :: "string \<Rightarrow> bool" where
  "at_dollar s = (s = [] \<or> s = [CHR 0x0A])"

definition tex_dollar :: "string option \<Rightarrow> bool" where
  "tex_dollar r = (case Option.bind r (lit ''.tex'') of None \<Rightarrow> False | Some s \<Rightarrow> at_dollar s)"

text \<open>\<^verbatim>\<open>PLAIN_Q_REGEX.match(name)\<close> for \<^verbatim>\<open>^q(\d+)\.tex$\<close>, as a truth value.\<close>

definition PLAIN_Q_REGEX_match :: "string \<Rightarrow> bool" where
  "PLAIN_Q_REGEX_match name = tex_dollar (Option.bind (lit ''q'' name) digits1)"

text \<open>
  \<^verbatim>\<open>PROTECTED_REGEX.match(name)\<close> for \<^verbatim>\<open>^q(\d+)_(xm|soln)\.tex$\<close>: the
  alternatives are tried in order, the rest of the pattern after each.
\<close>

definition PROTECTED_REGEX_match :: "string \<Rightarrow> bool" where
  "PROTECTED_REGEX_match name =
     (let r = Option.bind (Option.bind (lit ''q'' name) digits1) (lit ''_'')
      in tex_dollar (Option.bind r (lit ''xm'')) \<or> tex_dollar (Option.bind r (lit ''soln'')))"

text \<open>
  One segment of a glob pattern against one name, as \<^verbatim>\<open>fnmatch\<close> does it for a
  pattern of literal characters and \<^verbatim>\<open>*\<close>: the whole name has to be consumed
  (the translated pattern ends with \<^verbatim>\<open>\Z\<close>, which no trailing newline passes).
\<close>

fun fnmatch :: "string \<Rightarrow> string \<Rightarrow> bool" where
  "fnmatch [] s = (s = [])"
| "fnmatch (p # ps) s =
     (if p = CHR ''*''
      then fnmatch ps s \<or> (case s of [] \<Rightarrow> False | c # cs \<Rightarrow> fnmatch (p # ps) cs)
      else (case s of [] \<Rightarrow> False | c # cs \<Rightarrow> c = p \<and> fnmatch ps cs))"

definition IGNORE_DIRS :: "string set" where
  "IGNORE_DIRS = {''xmScripts'', ''.vscode'', ''.git''}"

subsection \<open>The directory tree and the calls into pathlib\<close>

text \<open>
  The tree below the resolved root: an entry is a file or a directory with its
  entries in the order the operating system enumerates them. A path is the list of
  components below the root, so the root is \<open>[]\<close>. Symbolic links are not modelled.
  A real directory lists each name once; nothing below depends on it: where a list
  repeats a name, \<open>lookup\<close> reads the first entry and \<open>remove_entry\<close> removes them all.
\<close>

type_synonym path = "string list"

datatype node = File | Dir "(string \<times> node) list"

text \<open>The exceptions of the calls below; \<open>OSError\<close> stands for any other failure.\<close>

datatype error =
  FileNotFoundError | NotADirectoryError | IsADirectoryError | PermissionError | OSError

fun lookup :: "node \<Rightarrow> path \<Rightarrow> node option" where
  "lookup t [] = Some t"
| "lookup File (c # cs) = None"
| "lookup (Dir es) (c # cs) = (case map_of es c of None \<Rightarrow> None | Some t \<Rightarrow> lookup t cs)"

definition is_dir :: "node \<Rightarrow> path \<Rightarrow> bool" where
  "is_dir t p = (case lookup t p of Some (Dir es) \<Rightarrow> True | _ \<Rightarrow> False)"

text \<open>\<^verbatim>\<open>Path.iterdir()\<close>: raises when the path is no directory.\<close>

definition iterdir :: "node \<Rightarrow> path \<Rightarrow> error + path list" where
  "iterdir t d =
     (case lookup t d of
        None \<Rightarrow> Inl FileNotFoundError
      | Some File \<Rightarrow> Inl NotADirectoryError
      | Some (Dir es) \<Rightarrow> Inr (map (\<lambda>n. d @ [n]) (map fst es)))"

text \<open>
  \<^verbatim>\<open>Path.rglob("*")\<close> from the root: every entry at every depth, the entries of a
  directory before those of its sub-directories. It yields nothing when the root is
  no directory. The caller sorts the result, so the order chosen here is not observed.
\<close>

fun rglob_star :: "node \<Rightarrow> path list" where
  "rglob_star File = []"
| "rglob_star (Dir es) =
     map (\<lambda>e. [fst e]) es @ concat (map (\<lambda>e. map ((#) (fst e)) (rglob_star (snd e))) es)"

text \<open>\<^verbatim>\<open>Path.glob(pat)\<close> for a pattern of one segment: the entries of \<open>d\<close> whose name
  matches, files and directories alike, case-sensitively as on POSIX.\<close>

definition glob :: "node \<Rightarrow> path \<Rightarrow> string \<Rightarrow> path list" where
  "glob t d pat =
     (case lookup t d of
        Some (Dir es) \<Rightarrow> map (\<lambda>n. d @ [n]) (filter (fnmatch pat) (map fst es))
      | _ \<Rightarrow> [])"

text \<open>Removing the entry at a path; the tree is unchanged when there is none.\<close>

fun remove_entry :: "node \<Rightarrow> path \<Rightarrow> node" where
  "remove_entry (Dir es) [c] = Dir (filter (\<lambda>e. fst e \<noteq> c) es)"
| "remove_entry (Dir es) (c # cs) =
     Dir (map (\<lambda>e. if fst e = c then (fst e, remove_entry (snd e) cs) else e) es)"
| "remove_entry t p = t"

text \<open>
  What the operating system adds to the tree: \<open>refuse p\<close> is the error with which it
  refuses to unlink the file \<open>p\<close>, if it does (permissions, an immutable or busy file,
  a path too long), and \<open>str_exc e p\<close> is the text Python gives the exception \<open>e\<close>
  raised for \<open>p\<close>.
\<close>

record os =
  refuse :: "path \<Rightarrow> error option"
  str_exc :: "error \<Rightarrow> path \<Rightarrow> string"

text \<open>
  \<^verbatim>\<open>Path.unlink()\<close>: only a file that is there and not refused is removed. The
  script unlinks paths below the root only; the root itself, \<open>[]\<close>, has no entry to
  remove.
\<close>

definition unlink :: "os \<Rightarrow> node \<Rightarrow> path \<Rightarrow> error + node" where
  "unlink E t p =
     (case lookup t p of
        None \<Rightarrow> Inl FileNotFoundError
      | Some (Dir es) \<Rightarrow> Inl IsADirectoryError
      | Some File \<Rightarrow>
          (case refuse E p of Some e \<Rightarrow> Inl e | None \<Rightarrow> Inr (remove_entry t p)))"

subsection \<open>find_candidate_deletions and gather_target_dirs\<close>

text \<open>The body of the \<^verbatim>\<open>for\<close> loop, with the list \<^verbatim>\<open>candidates\<close> as accumulator.\<close>

fun candidates_loop :: "path list \<Rightarrow> path list \<Rightarrow> path list" where
  "candidates_loop [] candidates = candidates"
| "candidates_loop (p # ps) candidates =
     (let name = last p in
      if PROTECTED_REGEX_match name then candidates_loop ps candidates
      else if PLAIN_Q_REGEX_match name then candidates_loop ps (candidates @ [p])
      else candidates_loop ps candidates)"

definition find_candidate_deletions :: "node \<Rightarrow> path \<Rightarrow> path list" where
  "find_candidate_deletions t questions_dir = candidates_loop (glob t questions_dir ''q*.tex'') []"

definition gather_target_dirs :: "node \<Rightarrow> bool \<Rightarrow> error + path list" where
  "gather_target_dirs t recursive =
     (case (if recursive then Inr (filter (is_dir t) (rglob_star t))
            else map_sum id (filter (is_dir t)) (iterdir t []))
      of Inl e \<Rightarrow> Inl e
       | Inr dirs \<Rightarrow> Inr (filter (\<lambda>d. last d \<notin> IGNORE_DIRS) dirs))"

subsection \<open>main\<close>

text \<open>\<^verbatim>\<open>str\<close> of a non-negative integer, and of a path below the root.\<close>

fun str_nat :: "nat \<Rightarrow> string" where
  "str_nat n =
     (if n < 10 then [''0123456789'' ! n]
      else str_nat (n div 10) @ [''0123456789'' ! (n mod 10)])"

definition joinpath :: "string \<Rightarrow> string \<Rightarrow> string" where
  "joinpath s c = (if s = ''/'' then s @ c else s @ ''/'' @ c)"

definition str_path :: "string \<Rightarrow> path \<Rightarrow> string" where
  "str_path r p = foldl joinpath r p"

text \<open>
  The parsed command line; \<open>root\<close> is the text of the resolved root path.
\<close>

record args =
  root :: string
  dry_run :: bool
  recursive :: bool
  quiet :: bool

text \<open>
  The state \<^verbatim>\<open>main\<close> threads through its loops: the tree, the lines printed so
  far, and the two counters. \<open>unlinked\<close> is a trace the script does not keep: the
  paths whose \<^verbatim>\<open>unlink()\<close> returned, in order.
\<close>

record state =
  disk :: node
  stdout :: "string list"
  total_deleted :: nat
  total_candidates :: nat
  unlinked :: "path list"

definition print :: "string \<Rightarrow> state \<Rightarrow> state" where
  "print l s = s\<lparr>stdout := stdout s @ [l]\<rparr>"

text \<open>One round of \<^verbatim>\<open>for f in candidates\<close>.\<close>

definition delete_step :: "os \<Rightarrow> args \<Rightarrow> path \<Rightarrow> state \<Rightarrow> state" where
  "delete_step E a f s =
     (if dry_run a then print (''[DRY] Would delete: '' @ str_path (root a) f) s
      else (case unlink E (disk s) f of
              Inr t \<Rightarrow>
                (print (''[DEL] Deleted: '' @ str_path (root a) f) (s\<lparr>disk := t, unlinked := unlinked s @ [f]\<rparr>))
                  \<lparr>total_deleted := total_deleted s + 1\<rparr>
            | Inl e \<Rightarrow>
                print (''[ERR] Could not delete '' @ str_path (root a) f @ '': '' @ str_exc E e f) s))"

fun delete_loop :: "os \<Rightarrow> args \<Rightarrow> path list \<Rightarrow> state \<Rightarrow> state" where
  "delete_loop E a [] s = s"
| "delete_loop E a (f # fs) s = delete_loop E a fs (delete_step E a f s)"

text \<open>One round of \<^verbatim>\<open>for d in sorted(dirs)\<close>, with its two \<^verbatim>\<open>continue\<close>s.\<close>

definition dir_step :: "os \<Rightarrow> args \<Rightarrow> path \<Rightarrow> state \<Rightarrow> state" where
  "dir_step E a d s =
     (let qdir = d @ [''questions''] in
      if \<not> is_dir (disk s) qdir then s
      else
        let candidates = find_candidate_deletions (disk s) qdir;
            s1 = s\<lparr>total_candidates := total_candidates s + length candidates\<rparr>
        in if candidates = [] \<and> \<not> quiet a
           then print (''[SKIP] '' @ str_path (root a) qdir @ '': no plain qN.tex files found'') s1
           else delete_loop E a candidates s1)"

fun dir_loop :: "os \<Rightarrow> args \<Rightarrow> path list \<Rightarrow> state \<Rightarrow> state" where
  "dir_loop E a [] s = s"
| "dir_loop E a (d # ds) s = dir_loop E a ds (dir_step E a d s)"

definition print_info :: "args \<Rightarrow> state \<Rightarrow> state" where
  "print_info a s =
     (if quiet a then s
      else
        let s1 = print (''[INFO] Root: '' @ root a) s;
            s2 = (if recursive a then print ''[INFO] Mode: recursive'' s1 else s1)
        in if dry_run a then print ''[INFO] Dry-run: no files will be deleted'' s2 else s2)"

definition print_summary :: "args \<Rightarrow> state \<Rightarrow> state" where
  "print_summary a s =
     (if dry_run a
      then print (''[SUMMARY] '' @ str_nat (total_candidates s) @ '' plain qN.tex file(s) would be deleted.'') s
      else print (''[SUMMARY] Deleted '' @ str_nat (total_deleted s) @ '' plain qN.tex file(s).'') s)"

definition init :: "node \<Rightarrow> state" where
  "init t = \<lparr>disk = t, stdout = [], total_deleted = 0, total_candidates = 0, unlinked = []\<rparr>"

text \<open>
  \<^verbatim>\<open>main\<close> on the tree \<open>t\<close> under the root: the final state, and the exception that
  ended the run if one did (only \<^verbatim>\<open>gather_target_dirs\<close> can raise one that is not
  caught).
\<close>

definition main :: "os \<Rightarrow> args \<Rightarrow> node \<Rightarrow> state \<times> error option" where
  "main E a t =
     (let s0 = print_info a (init t) in
      case gather_target_dirs t (recursive a) of
        Inl e \<Rightarrow> (s0, Some e)
      | Inr dirs \<Rightarrow> (print_summary a (dir_loop E a (sort dirs) s0), None))"

subsection \<open>Definitions the statements below need\<close>

text \<open>
  The loop of \<^verbatim>\<open>find_candidate_deletions\<close> with the two tests in the other order,
  the plain pattern first: the variant the spec compares the source with.
\<close>

fun candidates_loop_plain_first :: "path list \<Rightarrow> path list \<Rightarrow> path list" where
  "candidates_loop_plain_first [] candidates = candidates"
| "candidates_loop_plain_first (p # ps) candidates =
     (let name = last p in
      if PLAIN_Q_REGEX_match name then candidates_loop_plain_first ps (candidates @ [p])
      else if PROTECTED_REGEX_match name then candidates_loop_plain_first ps candidates
      else candidates_loop_plain_first ps candidates)"

definition find_candidate_deletions_plain_first :: "node \<Rightarrow> path \<Rightarrow> path list" where
  "find_candidate_deletions_plain_first t questions_dir =
     candidates_loop_plain_first (glob t questions_dir ''q*.tex'') []"

text \<open>The three tests an entry passes on its way into \<^verbatim>\<open>candidates\<close>.\<close>

definition candidate_name :: "string \<Rightarrow> bool" where
  "candidate_name n =
     (fnmatch ''q*.tex'' n \<and> \<not> PROTECTED_REGEX_match n \<and> PLAIN_Q_REGEX_match n)"

text \<open>A printed line carries a tag when it starts with it; \<open>cnt\<close> counts such lines.\<close>

definition tagged :: "string \<Rightarrow> string \<Rightarrow> bool" where
  "tagged tg l = prefix tg l"

definition cnt :: "string \<Rightarrow> state \<Rightarrow> nat" where
  "cnt tg s = length (filter (tagged tg) (stdout s))"

text \<open>
  The names a directory lists (none when the path is no directory), and the paths
  whose \<^verbatim>\<open>unlink()\<close> would return.
\<close>

definition listdir :: "node \<Rightarrow> path \<Rightarrow> string list" where
  "listdir t d = (case lookup t d of Some (Dir es) \<Rightarrow> map fst es | _ \<Rightarrow> [])"

definition unlinkable :: "os \<Rightarrow> node \<Rightarrow> path \<Rightarrow> bool" where
  "unlinkable E t p = (lookup t p = Some File \<and> refuse E p = None)"

subsection \<open>Example trees\<close>

text \<open>
  An operating system that refuses nothing and one that refuses to unlink
  \<^verbatim>\<open>A/questions/q2.tex\<close>;
  the tree of the spec's scenarios (plain and protected files under \<^verbatim>\<open>A/questions\<close>,
  a plain file under \<^verbatim>\<open>A/B/questions\<close>); a tree where \<^verbatim>\<open>q1.tex\<close> is a directory;
  and a tree with a questions folder below \<^verbatim>\<open>xmScripts\<close>.
\<close>

definition no_refusal :: os where
  "no_refusal = \<lparr>refuse = (\<lambda>p. None), str_exc = (\<lambda>e p. ''OSError'')\<rparr>"

definition refuse_q2 :: os where
  "refuse_q2 =
     \<lparr>refuse = (\<lambda>p. if p = [''A'', ''questions'', ''q2.tex''] then Some PermissionError else None),
      str_exc = (\<lambda>e p. ''OSError'')\<rparr>"

definition scenario_tree :: node where
  "scenario_tree =
     Dir [(''A'', Dir [(''questions'', Dir [(''q1.tex'', File), (''q1_soln.tex'', File),
                                            (''q1_xm.tex'', File), (''q2.tex'', File)]),
                       (''B'', Dir [(''questions'', Dir [(''q2.tex'', File)])])])]"

definition blocked_tree :: node where
  "blocked_tree = Dir [(''A'', Dir [(''questions'', Dir [(''q1.tex'', Dir [])])])]"

definition ignored_tree :: node where
  "ignored_tree = Dir [(''xmScripts'', Dir [(''A'', Dir [(''questions'', Dir [(''q7.tex'', File)])])])]"


section \<open>The patterns\<close>

lemma lit_Some: "lit p s = Some r \<longleftrightarrow> s = p @ r"
  by (induction p s rule: lit.induct) auto








text \<open>
  After \<^verbatim>\<open>q\<close> and the digits the plain pattern needs a dot and the protected one
  an underscore: no name has both.
\<close>

lemma regex_exclusive: "\<not> (PLAIN_Q_REGEX_match name \<and> PROTECTED_REGEX_match name)"
proof
  assume "PLAIN_Q_REGEX_match name \<and> PROTECTED_REGEX_match name"
  then obtain r1 r2 where "lit ''q'' name = Some r1" "digits1 r1 = Some r2"
     "lit ''.tex'' r2 \<noteq> None" "lit ''_'' r2 \<noteq> None"
    by (auto simp: PLAIN_Q_REGEX_match_def PROTECTED_REGEX_match_def tex_dollar_def Let_def
       bind_eq_Some_conv split: option.splits Option.bind_splits)
  then show False by (auto simp: lit_Some)
qed



section \<open>find_candidate_deletions\<close>

lemma candidates_loop_filter:
  "candidates_loop ps acc =
     acc @ filter (\<lambda>p. \<not> PROTECTED_REGEX_match (last p) \<and> PLAIN_Q_REGEX_match (last p)) ps"
  by (induction ps arbitrary: acc) (simp_all add: Let_def)

lemma candidates_loop_plain_first_filter:
  "candidates_loop_plain_first ps acc = acc @ filter (\<lambda>p. PLAIN_Q_REGEX_match (last p)) ps"
  by (induction ps arbitrary: acc) (simp_all add: Let_def)

lemma find_candidate_deletions_eq:
  "find_candidate_deletions t d =
     (case lookup t d of
        Some (Dir es) \<Rightarrow> map (\<lambda>n. d @ [n]) (filter candidate_name (map fst es))
      | _ \<Rightarrow> [])"
  by (simp add: find_candidate_deletions_def glob_def candidates_loop_filter filter_map o_def
      candidate_name_def conj_commute conj_left_commute split: option.splits node.splits)




text \<open>
  Claim C9. No name matches both patterns, and so the loop that tests the plain
  pattern first returns the list the source's loop returns.
\<close>

theorem plain_and_protected_exclusive:
  "\<not> (PLAIN_Q_REGEX_match name \<and> PROTECTED_REGEX_match name) \<and>
   find_candidate_deletions_plain_first t d = find_candidate_deletions t d"
proof -
  have "(\<lambda>p. PLAIN_Q_REGEX_match (last p)) =
        (\<lambda>p. \<not> PROTECTED_REGEX_match (last p) \<and> PLAIN_Q_REGEX_match (last p))"
    using regex_exclusive by blast
  then show ?thesis
    by (simp add: regex_exclusive find_candidate_deletions_def
        find_candidate_deletions_plain_first_def candidates_loop_filter
        candidates_loop_plain_first_filter)
qed

section \<open>Counters and printed lines\<close>

text \<open>
  Each loop is followed through its effect on the counters and on the number of lines
  of each tag; the relations are additive, so that they compose along the loops.
\<close>

lemma print_fields [simp]:
  "disk (print l s) = disk s" "stdout (print l s) = stdout s @ [l]"
  "total_deleted (print l s) = total_deleted s" "total_candidates (print l s) = total_candidates s"
  "unlinked (print l s) = unlinked s"
  by (simp_all add: print_def)

lemma cnt_print: "cnt tg (print l s) = cnt tg s + (if tagged tg l then 1 else 0)"
  by (simp add: cnt_def)

lemma cnt_upd [simp]:
  "cnt tg (s\<lparr>total_candidates := n\<rparr>) = cnt tg s"
  "cnt tg (s\<lparr>total_deleted := n\<rparr>) = cnt tg s"
  "cnt tg (s\<lparr>disk := t\<rparr>) = cnt tg s"
  "cnt tg (s\<lparr>unlinked := u\<rparr>) = cnt tg s"
  by (simp_all add: cnt_def)

lemma delete_step_quiet_tags:
  "cnt ''[INFO]'' (delete_step E a f s) = cnt ''[INFO]'' s"
  "cnt ''[SKIP]'' (delete_step E a f s) = cnt ''[SKIP]'' s"
  "cnt ''[SUMMARY]'' (delete_step E a f s) = cnt ''[SUMMARY]'' s"
  by (simp_all add: delete_step_def cnt_print tagged_def split: sum.splits)

lemma delete_step_dry:
  assumes "dry_run a"
  shows "disk (delete_step E a f s) = disk s" "unlinked (delete_step E a f s) = unlinked s"
    "total_deleted (delete_step E a f s) = total_deleted s"
    "cnt ''[DRY]'' (delete_step E a f s) = cnt ''[DRY]'' s + 1"
    "cnt ''[DEL]'' (delete_step E a f s) = cnt ''[DEL]'' s"
    "cnt ''[ERR]'' (delete_step E a f s) = cnt ''[ERR]'' s"
  using assms by (simp_all add: delete_step_def cnt_print tagged_def)

lemma delete_step_candidates:
  "total_candidates (delete_step E a f s) = total_candidates s"
  by (simp add: delete_step_def split: sum.splits)

lemma delete_step_live:
  assumes "\<not> dry_run a"
  shows "cnt ''[DRY]'' (delete_step E a f s) = cnt ''[DRY]'' s"
    "cnt ''[DEL]'' (delete_step E a f s) + cnt ''[ERR]'' (delete_step E a f s) = cnt ''[DEL]'' s + cnt ''[ERR]'' s + 1"
    "cnt ''[DEL]'' (delete_step E a f s) + total_deleted s = cnt ''[DEL]'' s + total_deleted (delete_step E a f s)"
  using assms by (simp_all add: delete_step_def cnt_print tagged_def split: sum.splits)


lemma delete_loop_quiet_tags:
  "cnt ''[INFO]'' (delete_loop E a fs s) = cnt ''[INFO]'' s"
  "cnt ''[SKIP]'' (delete_loop E a fs s) = cnt ''[SKIP]'' s"
  "cnt ''[SUMMARY]'' (delete_loop E a fs s) = cnt ''[SUMMARY]'' s"
  by (induction fs arbitrary: s; simp add: delete_step_quiet_tags)+

lemma delete_loop_candidates:
  "total_candidates (delete_loop E a fs s) = total_candidates s"
  by (induction fs arbitrary: s) (simp_all add: delete_step_candidates)

lemma delete_loop_dry:
  assumes "dry_run a"
  shows "disk (delete_loop E a fs s) = disk s" "unlinked (delete_loop E a fs s) = unlinked s"
    "total_deleted (delete_loop E a fs s) = total_deleted s"
    "cnt ''[DRY]'' (delete_loop E a fs s) = cnt ''[DRY]'' s + length fs"
    "cnt ''[DEL]'' (delete_loop E a fs s) = cnt ''[DEL]'' s"
    "cnt ''[ERR]'' (delete_loop E a fs s) = cnt ''[ERR]'' s"
  using assms by (induction fs arbitrary: s; simp add: delete_step_dry)+

lemma delete_loop_live:
  assumes "\<not> dry_run a"
  shows "cnt ''[DRY]'' (delete_loop E a fs s) = cnt ''[DRY]'' s"
    "cnt ''[DEL]'' (delete_loop E a fs s) + cnt ''[ERR]'' (delete_loop E a fs s) = cnt ''[DEL]'' s + cnt ''[ERR]'' s + length fs"
    "cnt ''[DEL]'' (delete_loop E a fs s) + total_deleted s = cnt ''[DEL]'' s + total_deleted (delete_loop E a fs s)"
proof -
  show "cnt ''[DRY]'' (delete_loop E a fs s) = cnt ''[DRY]'' s"
    using assms by (induction fs arbitrary: s) (simp_all add: delete_step_live)
  show "cnt ''[DEL]'' (delete_loop E a fs s) + cnt ''[ERR]'' (delete_loop E a fs s) = cnt ''[DEL]'' s + cnt ''[ERR]'' s + length fs"
  proof (induction fs arbitrary: s)
    case Nil
    show ?case by simp
  next
    case (Cons f fs)
    show ?case using Cons.IH[of "delete_step E a f s"] delete_step_live(2)[OF assms, of E f s] by simp
  qed
  show "cnt ''[DEL]'' (delete_loop E a fs s) + total_deleted s = cnt ''[DEL]'' s + total_deleted (delete_loop E a fs s)"
  proof (induction fs arbitrary: s)
    case Nil
    show ?case by simp
  next
    case (Cons f fs)
    show ?case using Cons.IH[of "delete_step E a f s"] delete_step_live(3)[OF assms, of E f s] by simp
  qed
qed


lemma dir_step_quiet_tags:
  "cnt ''[SUMMARY]'' (dir_step E a d s) = cnt ''[SUMMARY]'' s"
  "cnt ''[INFO]'' (dir_step E a d s) = cnt ''[INFO]'' s"
  "quiet a \<Longrightarrow> cnt ''[SKIP]'' (dir_step E a d s) = cnt ''[SKIP]'' s"
  by (simp_all add: dir_step_def Let_def delete_loop_quiet_tags cnt_print tagged_def)

lemma dir_step_dry:
  assumes "dry_run a"
  shows "disk (dir_step E a d s) = disk s" "unlinked (dir_step E a d s) = unlinked s"
    "total_deleted (dir_step E a d s) = total_deleted s"
    "cnt ''[DRY]'' (dir_step E a d s) + total_candidates s = cnt ''[DRY]'' s + total_candidates (dir_step E a d s)"
    "cnt ''[DEL]'' (dir_step E a d s) = cnt ''[DEL]'' s"
    "cnt ''[ERR]'' (dir_step E a d s) = cnt ''[ERR]'' s"
    "total_candidates (dir_step E a d s) =
       total_candidates s + length (find_candidate_deletions (disk s) (d @ [''questions'']))"
  using assms
  by (simp_all add: dir_step_def Let_def delete_loop_dry delete_loop_candidates cnt_print tagged_def
      find_candidate_deletions_eq is_dir_def split: option.splits node.splits)

lemma dir_step_live:
  assumes "\<not> dry_run a"
  shows "cnt ''[DRY]'' (dir_step E a d s) = cnt ''[DRY]'' s"
    "cnt ''[DEL]'' (dir_step E a d s) + cnt ''[ERR]'' (dir_step E a d s) + total_candidates s =
       cnt ''[DEL]'' s + cnt ''[ERR]'' s + total_candidates (dir_step E a d s)"
    "cnt ''[DEL]'' (dir_step E a d s) + total_deleted s = cnt ''[DEL]'' s + total_deleted (dir_step E a d s)"
proof -
  let ?c = "find_candidate_deletions (disk s) (d @ [''questions''])"
  let ?s1 = "s\<lparr>total_candidates := total_candidates s + length ?c\<rparr>"
  show "cnt ''[DRY]'' (dir_step E a d s) = cnt ''[DRY]'' s"
    using assms by (simp add: dir_step_def Let_def delete_loop_live(1) cnt_print tagged_def)
  show "cnt ''[DEL]'' (dir_step E a d s) + cnt ''[ERR]'' (dir_step E a d s) + total_candidates s =
       cnt ''[DEL]'' s + cnt ''[ERR]'' s + total_candidates (dir_step E a d s)"
    using delete_loop_live(2)[OF assms, of E ?c ?s1]
    by (simp add: dir_step_def Let_def delete_loop_candidates cnt_print tagged_def)
  show "cnt ''[DEL]'' (dir_step E a d s) + total_deleted s = cnt ''[DEL]'' s + total_deleted (dir_step E a d s)"
    using delete_loop_live(3)[OF assms, of E ?c ?s1]
    by (simp add: dir_step_def Let_def cnt_print tagged_def)
qed


lemma dir_loop_quiet_tags:
  "cnt ''[SUMMARY]'' (dir_loop E a ds s) = cnt ''[SUMMARY]'' s"
  "cnt ''[INFO]'' (dir_loop E a ds s) = cnt ''[INFO]'' s"
  "quiet a \<Longrightarrow> cnt ''[SKIP]'' (dir_loop E a ds s) = cnt ''[SKIP]'' s"
  by (induction ds arbitrary: s; simp add: dir_step_quiet_tags)+

lemma dir_loop_dry:
  assumes "dry_run a"
  shows "disk (dir_loop E a ds s) = disk s" "unlinked (dir_loop E a ds s) = unlinked s"
    "total_deleted (dir_loop E a ds s) = total_deleted s"
    "cnt ''[DEL]'' (dir_loop E a ds s) = cnt ''[DEL]'' s"
    "cnt ''[ERR]'' (dir_loop E a ds s) = cnt ''[ERR]'' s"
  using assms by (induction ds arbitrary: s; simp add: dir_step_dry)+

lemma dir_loop_dry_count:
  assumes "dry_run a"
  shows "cnt ''[DRY]'' (dir_loop E a ds s) + total_candidates s = cnt ''[DRY]'' s + total_candidates (dir_loop E a ds s)"
proof (induction ds arbitrary: s)
  case Nil
  show ?case by simp
next
  case (Cons d ds)
  show ?case using Cons.IH[of "dir_step E a d s"] dir_step_dry(4)[OF assms, of E d s] by simp
qed


lemma dir_loop_live:
  assumes "\<not> dry_run a"
  shows "cnt ''[DRY]'' (dir_loop E a ds s) = cnt ''[DRY]'' s"
    "cnt ''[DEL]'' (dir_loop E a ds s) + cnt ''[ERR]'' (dir_loop E a ds s) + total_candidates s =
       cnt ''[DEL]'' s + cnt ''[ERR]'' s + total_candidates (dir_loop E a ds s)"
    "cnt ''[DEL]'' (dir_loop E a ds s) + total_deleted s = cnt ''[DEL]'' s + total_deleted (dir_loop E a ds s)"
proof -
  show "cnt ''[DRY]'' (dir_loop E a ds s) = cnt ''[DRY]'' s"
    using assms by (induction ds arbitrary: s) (simp_all add: dir_step_live)
  show "cnt ''[DEL]'' (dir_loop E a ds s) + cnt ''[ERR]'' (dir_loop E a ds s) + total_candidates s =
       cnt ''[DEL]'' s + cnt ''[ERR]'' s + total_candidates (dir_loop E a ds s)"
  proof (induction ds arbitrary: s)
    case Nil
    show ?case by simp
  next
    case (Cons d ds)
    show ?case using Cons.IH[of "dir_step E a d s"] dir_step_live(2)[OF assms, of E d s] by simp
  qed
  show "cnt ''[DEL]'' (dir_loop E a ds s) + total_deleted s = cnt ''[DEL]'' s + total_deleted (dir_loop E a ds s)"
  proof (induction ds arbitrary: s)
    case Nil
    show ?case by simp
  next
    case (Cons d ds)
    show ?case using Cons.IH[of "dir_step E a d s"] dir_step_live(3)[OF assms, of E d s] by simp
  qed
qed


lemma print_info_fields [simp]:
  "disk (print_info a s) = disk s" "total_deleted (print_info a s) = total_deleted s"
  "total_candidates (print_info a s) = total_candidates s" "unlinked (print_info a s) = unlinked s"
  by (simp_all add: print_info_def Let_def)

lemma print_info_tags:
  "cnt ''[SKIP]'' (print_info a s) = cnt ''[SKIP]'' s"
  "cnt ''[DRY]'' (print_info a s) = cnt ''[DRY]'' s"
  "cnt ''[DEL]'' (print_info a s) = cnt ''[DEL]'' s"
  "cnt ''[ERR]'' (print_info a s) = cnt ''[ERR]'' s"
  "cnt ''[SUMMARY]'' (print_info a s) = cnt ''[SUMMARY]'' s"
  "quiet a \<Longrightarrow> cnt ''[INFO]'' (print_info a s) = cnt ''[INFO]'' s"
  by (simp_all add: print_info_def Let_def cnt_print tagged_def)

lemma print_summary_fields [simp]:
  "disk (print_summary a s) = disk s" "total_deleted (print_summary a s) = total_deleted s"
  "total_candidates (print_summary a s) = total_candidates s" "unlinked (print_summary a s) = unlinked s"
  by (simp_all add: print_summary_def)

lemma print_summary_tags:
  "cnt ''[SKIP]'' (print_summary a s) = cnt ''[SKIP]'' s"
  "cnt ''[DRY]'' (print_summary a s) = cnt ''[DRY]'' s"
  "cnt ''[DEL]'' (print_summary a s) = cnt ''[DEL]'' s"
  "cnt ''[ERR]'' (print_summary a s) = cnt ''[ERR]'' s"
  "cnt ''[INFO]'' (print_summary a s) = cnt ''[INFO]'' s"
  "cnt ''[SUMMARY]'' (print_summary a s) = cnt ''[SUMMARY]'' s + 1"
  by (simp_all add: print_summary_def cnt_print tagged_def)

lemma cnt_init [simp]: "cnt tg (init t) = 0"
  by (simp add: cnt_def init_def)

lemma init_fields [simp]:
  "disk (init t) = t" "total_deleted (init t) = 0" "total_candidates (init t) = 0" "unlinked (init t) = []"
  by (simp_all add: init_def)

lemma main_run:
  assumes "gather_target_dirs t (recursive a) = Inr dirs"
  shows "main E a t = (print_summary a (dir_loop E a (sort dirs) (print_info a (init t))), None)"
  using assms by (simp add: main_def Let_def)

lemma main_abort:
  assumes "gather_target_dirs t (recursive a) = Inl e"
  shows "main E a t = (print_info a (init t), Some e)"
  using assms by (simp add: main_def Let_def)



lemma print_summary_last:
  "last (stdout (print_summary a s)) =
     (if dry_run a
      then ''[SUMMARY] '' @ str_nat (total_candidates s) @ '' plain qN.tex file(s) would be deleted.''
      else ''[SUMMARY] Deleted '' @ str_nat (total_deleted s) @ '' plain qN.tex file(s).'')"
  by (simp add: print_summary_def)

section \<open>The tree under unlink\<close>

lemma map_of_filter_fst:
  "map_of (filter (\<lambda>e. fst e \<noteq> c) es) k = (if k = c then None else map_of es k)"
  by (induction es) auto

lemma map_of_map_snd:
  "map_of (map (\<lambda>e. if fst e = c then (fst e, g (snd e)) else e) es) k =
     (if k = c then map_option g (map_of es c) else map_of es k)"
  by (induction es) auto

lemma lookup_append:
  "lookup t (p @ r) = (case lookup t p of None \<Rightarrow> None | Some x \<Rightarrow> lookup x r)"
  by (induction t p rule: lookup.induct) (auto split: option.splits)

lemma lookup_File_eq: "lookup File q = (if q = [] then Some File else None)"
  by (cases q) auto

lemma lookup_remove_entry:
  "p \<noteq> [] \<Longrightarrow> lookup (remove_entry t p) q =
     (if prefix p q then None
      else if prefix q p then map_option (\<lambda>x. remove_entry x (drop (length q) p)) (lookup t q)
      else lookup t q)"
proof (induction t p arbitrary: q rule: remove_entry.induct)
  case (1 es c)
  show ?case
  proof (cases q)
    case Nil
    then show ?thesis by simp
  next
    case (Cons c' q')
    then show ?thesis by (auto simp: map_of_filter_fst split: option.splits)
  qed
next
  case (2 es c v va)
  have m: "map_of (map (\<lambda>e. if fst e = c then (fst e, remove_entry (snd e) (v # va)) else e) es) k =
     (if k = c then map_option (\<lambda>x. remove_entry x (v # va)) (map_of es c) else map_of es k)" for k
    using map_of_map_snd[of c "\<lambda>x. remove_entry x (v # va)" es k] by simp
  show ?case
  proof (cases q)
    case Nil
    then show ?thesis by simp
  next
    case (Cons c' q')
    show ?thesis
    proof (cases "c' = c")
      case False
      with Cons show ?thesis by (simp add: m)
    next
      case True
      show ?thesis
      proof (cases "map_of es c")
        case None
        with Cons True show ?thesis by (simp add: m)
      next
        case (Some x)
        then have "(c, x) \<in> set es" by (rule map_of_SomeD)
        then have "lookup (remove_entry x (v # va)) q' =
          (if prefix (v # va) q' then None
           else if prefix q' (v # va) then map_option (\<lambda>y. remove_entry y (drop (length q') (v # va))) (lookup x q')
           else lookup x q')"
          using "2.IH"[of "(c, x)" q'] by simp
        with Cons True Some show ?thesis by (simp add: m)
      qed
    qed
  qed
qed (auto simp: lookup_File_eq)

lemma unlink_Inr_iff: "unlink E t p = Inr t' \<longleftrightarrow> unlinkable E t p \<and> t' = remove_entry t p"
  by (auto simp: unlink_def unlinkable_def split: option.splits node.splits)

lemma unlink_Inl_iff: "(\<exists>e. unlink E t p = Inl e) \<longleftrightarrow> \<not> unlinkable E t p"
  by (auto simp: unlink_def unlinkable_def split: option.splits node.splits)

lemma find_candidate_deletions_listdir:
  "find_candidate_deletions t d = map (\<lambda>n. d @ [n]) (filter candidate_name (listdir t d))"
  by (simp add: find_candidate_deletions_eq listdir_def split: option.splits node.splits)

lemma lookup_File_below: "lookup File r = Some x \<longleftrightarrow> r = [] \<and> x = File"
  by (cases r) auto

lemma remove_entry_File [simp]: "remove_entry File r = File"
  by (cases r) auto

lemma remove_entry_Dir:
  "r \<noteq> [] \<Longrightarrow> \<exists>es'. remove_entry (Dir es) r = Dir es' \<and>
     map fst es' = (if tl r = [] then filter (\<lambda>n. n \<noteq> hd r) (map fst es) else map fst es)"
proof (cases r)
  case Nil
  assume "r \<noteq> []"
  with Nil show ?thesis by simp
next
  case (Cons c cs)
  show ?thesis
  proof (cases cs)
    case Nil
    with Cons show ?thesis by (simp add: filter_map o_def)
  next
    case (Cons c' cs')
    with \<open>r = c # cs\<close> show ?thesis by (simp add: o_def if_distrib cong: if_cong)
  qed
qed

text \<open>What a successful unlink of \<open>p\<close> changes.\<close>

lemma removed_file:
  assumes "lookup t p = Some File" "p \<noteq> []"
  shows "lookup (remove_entry t p) f = Some File \<longleftrightarrow> lookup t f = Some File \<and> f \<noteq> p"
proof (cases "prefix p f")
  case True
  then obtain r where r: "f = p @ r" by (auto simp: prefix_def)
  with assms have "lookup t f = Some File \<longleftrightarrow> r = []"
    by (simp add: lookup_append lookup_File_below)
  with True r assms(2) show ?thesis by (simp add: lookup_remove_entry)
next
  case False
  show ?thesis
  proof (cases "prefix f p")
    case True
    then obtain r where r: "p = f @ r" by (auto simp: prefix_def)
    with False have rne: "r \<noteq> []" by auto
    from assms(1) r obtain x where x: "lookup t f = Some x" "lookup x r = Some File"
      by (auto simp: lookup_append split: option.splits)
    with rne have "x \<noteq> File" by (auto simp: lookup_File_below)
    then obtain es where es: "x = Dir es" by (cases x) auto
    from remove_entry_Dir[OF rne, of es] have "remove_entry x r \<noteq> File" using es by auto
    with False True assms(2) x r \<open>x \<noteq> File\<close> show ?thesis
      by (auto simp: lookup_remove_entry)
  next
    case nf: False
    with False assms(2) show ?thesis by (auto simp: lookup_remove_entry)
  qed
qed

lemma removed_is_dir:
  assumes "lookup t p = Some File" "p \<noteq> []"
  shows "is_dir (remove_entry t p) q = is_dir t q"
proof (cases "prefix p q")
  case True
  then obtain r where r: "q = p @ r" by (auto simp: prefix_def)
  with assms have "\<not> is_dir t q"
    by (cases r) (auto simp: is_dir_def lookup_append)
  with True assms(2) show ?thesis by (simp add: is_dir_def lookup_remove_entry)
next
  case False
  show ?thesis
  proof (cases "prefix q p")
    case True
    then obtain r where r: "p = q @ r" by (auto simp: prefix_def)
    with False have rne: "r \<noteq> []" by auto
    from assms(1) r obtain x where x: "lookup t q = Some x" "lookup x r = Some File"
      by (auto simp: lookup_append split: option.splits)
    with rne have "x \<noteq> File" by (auto simp: lookup_File_below)
    then obtain es where es: "x = Dir es" by (cases x) auto
    from remove_entry_Dir[OF rne, of es] obtain es' where "remove_entry x r = Dir es'" using es by auto
    with False True assms(2) x r es show ?thesis
      by (auto simp: is_dir_def lookup_remove_entry)
  next
    case nf: False
    with False assms(2) show ?thesis by (auto simp: is_dir_def lookup_remove_entry)
  qed
qed

lemma removed_listdir:
  assumes "lookup t p = Some File" "p \<noteq> []"
  shows "listdir (remove_entry t p) q =
     (if q = butlast p then filter (\<lambda>n. n \<noteq> last p) (listdir t q) else listdir t q)"
proof (cases "prefix p q")
  case True
  then obtain r where r: "q = p @ r" by (auto simp: prefix_def)
  with assms have a: "listdir t q = []"
    by (cases r) (auto simp: listdir_def lookup_append)
  from True assms(2) have "length (butlast p) < length q"
    by (cases p rule: rev_cases) (auto simp: prefix_def)
  then have "q \<noteq> butlast p" by auto
  with a True assms(2) show ?thesis by (simp add: listdir_def lookup_remove_entry)
next
  case False
  show ?thesis
  proof (cases "prefix q p")
    case True
    then obtain r where r: "p = q @ r" by (auto simp: prefix_def)
    with False have rne: "r \<noteq> []" by auto
    from assms(1) r obtain x where x: "lookup t q = Some x" "lookup x r = Some File"
      by (auto simp: lookup_append split: option.splits)
    with rne have "x \<noteq> File" by (auto simp: lookup_File_below)
    then obtain es where es: "x = Dir es" by (cases x) auto
    from remove_entry_Dir[OF rne, of es] obtain es' where es': "remove_entry x r = Dir es'"
      "map fst es' = (if tl r = [] then filter (\<lambda>n. n \<noteq> hd r) (map fst es) else map fst es)"
      using es by auto
    have b: "q = butlast p \<longleftrightarrow> tl r = []" using r rne
      by (cases r) (auto simp: butlast_append)
    have l: "tl r = [] \<Longrightarrow> last p = hd r" using r rne by (cases r) auto
    from False True assms(2) x r es es' have "listdir (remove_entry t p) q = map fst es'"
      by (simp add: listdir_def lookup_remove_entry)
    moreover have "listdir t q = map fst es" using x es by (simp add: listdir_def)
    ultimately show ?thesis using es'(2) b l by auto
  next
    case nf: False
    have "q \<noteq> butlast p" using nf by (metis prefixeq_butlast)
    with nf False assms(2) show ?thesis by (auto simp: listdir_def lookup_remove_entry)
  qed
qed

lemma removed_file_mono:
  assumes "lookup t p = Some File" "lookup (remove_entry t p) f = Some File"
  shows "lookup t f = Some File"
  using assms removed_file[of t p f] by (cases "p = []") auto

lemma removed_is_dir_any:
  assumes "lookup t p = Some File"
  shows "is_dir (remove_entry t p) q = is_dir t q"
  using assms removed_is_dir[of t p q] by (cases "p = []") auto

lemma removed_listdir_mono:
  assumes "lookup t p = Some File"
  shows "set (listdir (remove_entry t p) q) \<subseteq> set (listdir t q)"
  using assms removed_listdir[of t p q] by (cases "p = []") auto

lemma delete_step_disk:
  "disk (delete_step E a f s) =
     (if \<not> dry_run a \<and> unlinkable E (disk s) f then remove_entry (disk s) f else disk s)"
  by (auto simp: delete_step_def unlink_def unlinkable_def split: sum.splits option.splits node.splits)

lemma delete_step_unlinkable_mono:
  "unlinkable E (disk (delete_step E a f s)) g \<Longrightarrow> unlinkable E (disk s) g"
  by (auto simp: delete_step_disk unlinkable_def dest: removed_file_mono split: if_splits)

lemma delete_step_is_dir [simp]: "is_dir (disk (delete_step E a f s)) q = is_dir (disk s) q"
  by (simp add: delete_step_disk unlinkable_def removed_is_dir_any)

lemma delete_step_listdir_mono:
  "set (listdir (disk (delete_step E a f s)) q) \<subseteq> set (listdir (disk s) q)"
  using removed_listdir_mono by (simp add: delete_step_disk unlinkable_def)

lemma delete_step_settles:
  assumes "\<not> dry_run a" "f \<noteq> []"
  shows "\<not> unlinkable E (disk (delete_step E a f s)) f"
  using assms removed_file[of "disk s" f f] by (auto simp: delete_step_disk unlinkable_def)

lemma delete_step_ERR_mono: "cnt ''[ERR]'' s \<le> cnt ''[ERR]'' (delete_step E a f s)"
  by (simp add: delete_step_def cnt_print split: sum.splits)

lemma delete_step_ERR:
  assumes "\<not> dry_run a" "n \<in> set (listdir (disk (delete_step E a (q @ [n]) s)) q)"
  shows "0 < cnt ''[ERR]'' (delete_step E a (q @ [n]) s)"
proof (cases "unlinkable E (disk s) (q @ [n])")
  case True
  then have "lookup (disk s) (q @ [n]) = Some File" by (simp add: unlinkable_def)
  from removed_listdir[OF this, of q] have "n \<notin> set (listdir (remove_entry (disk s) (q @ [n])) q)"
    by simp
  with assms True show ?thesis by (simp add: delete_step_disk)
next
  case False
  then obtain e where "unlink E (disk s) (q @ [n]) = Inl e" using unlink_Inl_iff by blast
  with assms(1) show ?thesis by (simp add: delete_step_def cnt_print tagged_def)
qed

lemma delete_loop_unlinkable_mono:
  "unlinkable E (disk (delete_loop E a fs s)) g \<Longrightarrow> unlinkable E (disk s) g"
  by (induction fs arbitrary: s) (auto dest: delete_step_unlinkable_mono)

lemma delete_loop_is_dir [simp]: "is_dir (disk (delete_loop E a fs s)) q = is_dir (disk s) q"
  by (induction fs arbitrary: s) auto

lemma delete_loop_listdir_mono:
  "set (listdir (disk (delete_loop E a fs s)) q) \<subseteq> set (listdir (disk s) q)"
proof (induction fs arbitrary: s)
  case Nil
  show ?case by simp
next
  case (Cons f fs)
  show ?case using Cons.IH[of "delete_step E a f s"] delete_step_listdir_mono[of E a f s q] by auto
qed

lemma delete_loop_ERR_mono: "cnt ''[ERR]'' s \<le> cnt ''[ERR]'' (delete_loop E a fs s)"
proof (induction fs arbitrary: s)
  case Nil
  show ?case by simp
next
  case (Cons f fs)
  show ?case using Cons.IH[of "delete_step E a f s"] delete_step_ERR_mono[of s E a f] by simp
qed

lemma delete_loop_settles:
  assumes "\<not> dry_run a" "f \<in> set fs" "f \<noteq> []"
  shows "\<not> unlinkable E (disk (delete_loop E a fs s)) f"
  using assms(2)
proof (induction fs arbitrary: s)
  case Nil
  then show ?case by simp
next
  case (Cons f0 fs)
  show ?case
  proof (cases "f = f0")
    case True
    have "\<not> unlinkable E (disk (delete_step E a f s)) f"
      using assms(1,3) by (rule delete_step_settles)
    then show ?thesis using True delete_loop_unlinkable_mono[of E a fs "delete_step E a f s" f] by auto
  next
    case False
    with Cons.prems have "f \<in> set fs" by simp
    then show ?thesis using Cons.IH by simp
  qed
qed

lemma delete_loop_ERR:
  assumes "\<not> dry_run a" "q @ [n] \<in> set fs" "n \<in> set (listdir (disk (delete_loop E a fs s)) q)"
  shows "0 < cnt ''[ERR]'' (delete_loop E a fs s)"
  using assms(2,3)
proof (induction fs arbitrary: s)
  case Nil
  then show ?case by simp
next
  case (Cons f0 fs)
  show ?case
  proof (cases "q @ [n] = f0")
    case True
    from Cons.prems(2) have "n \<in> set (listdir (disk (delete_step E a (q @ [n]) s)) q)"
      using delete_loop_listdir_mono[of E a fs "delete_step E a f0 s" q] True by auto
    with assms(1) have "0 < cnt ''[ERR]'' (delete_step E a (q @ [n]) s)" by (rule delete_step_ERR)
    then show ?thesis using True delete_loop_ERR_mono[of "delete_step E a f0 s" E a fs] by simp
  next
    case False
    with Cons.prems have "q @ [n] \<in> set fs" by simp
    then show ?thesis using Cons.IH Cons.prems(2) by simp
  qed
qed

lemma delete_loop_idle:
  assumes "\<not> dry_run a" "\<forall>f\<in>set fs. \<not> unlinkable E (disk s) f"
  shows "disk (delete_loop E a fs s) = disk s \<and> total_deleted (delete_loop E a fs s) = total_deleted s \<and>
     unlinked (delete_loop E a fs s) = unlinked s"
  using assms(2)
proof (induction fs arbitrary: s)
  case Nil
  show ?case by simp
next
  case (Cons f fs)
  from Cons.prems have "\<not> unlinkable E (disk s) f" by simp
  then obtain e where e: "unlink E (disk s) f = Inl e" using unlink_Inl_iff by blast
  with assms(1) have st: "disk (delete_step E a f s) = disk s" "total_deleted (delete_step E a f s) = total_deleted s"
    "unlinked (delete_step E a f s) = unlinked s"
    by (simp_all add: delete_step_def)
  with Cons.prems have "\<forall>g\<in>set fs. \<not> unlinkable E (disk (delete_step E a f s)) g" by simp
  from Cons.IH[OF this] st show ?case by simp
qed


lemma candidates_iff:
  "f \<in> set (find_candidate_deletions t q) \<longleftrightarrow>
     (\<exists>n. n \<in> set (listdir t q) \<and> candidate_name n \<and> f = q @ [n])"
  by (auto simp: find_candidate_deletions_listdir)

lemma not_dir_no_candidates: "\<not> is_dir t q \<Longrightarrow> find_candidate_deletions t q = []"
  by (auto simp: find_candidate_deletions_eq is_dir_def split: option.splits node.splits)

lemma dir_step_unlinkable_mono:
  "unlinkable E (disk (dir_step E a d s)) g \<Longrightarrow> unlinkable E (disk s) g"
  by (auto simp: dir_step_def Let_def split: if_splits dest: delete_loop_unlinkable_mono)

lemma dir_step_is_dir [simp]: "is_dir (disk (dir_step E a d s)) q = is_dir (disk s) q"
  by (simp add: dir_step_def Let_def)

lemma dir_step_listdir_mono:
  "set (listdir (disk (dir_step E a d s)) q) \<subseteq> set (listdir (disk s) q)"
  using delete_loop_listdir_mono
    [of E a "find_candidate_deletions (disk s) (d @ [''questions''])"
      "s\<lparr>total_candidates := total_candidates s +
          length (find_candidate_deletions (disk s) (d @ [''questions'']))\<rparr>" q]
  by (simp add: dir_step_def Let_def)

lemma dir_step_ERR_mono: "cnt ''[ERR]'' s \<le> cnt ''[ERR]'' (dir_step E a d s)"
  using delete_loop_ERR_mono
    [of "s\<lparr>total_candidates := total_candidates s +
          length (find_candidate_deletions (disk s) (d @ [''questions'']))\<rparr>" E a
       "find_candidate_deletions (disk s) (d @ [''questions''])"]
  by (simp add: dir_step_def Let_def cnt_print)

lemma dir_step_settles:
  assumes "\<not> dry_run a" "f \<in> set (find_candidate_deletions (disk s) (d @ [''questions'']))"
  shows "\<not> unlinkable E (disk (dir_step E a d s)) f"
proof -
  from assms(2) have ne: "f \<noteq> []" by (auto simp: candidates_iff)
  from assms(2) have "is_dir (disk s) (d @ [''questions''])"
    using not_dir_no_candidates by fastforce
  moreover from assms(2) have "find_candidate_deletions (disk s) (d @ [''questions'']) \<noteq> []" by auto
  ultimately show ?thesis
    using delete_loop_settles[OF assms(1,2) ne] by (simp add: dir_step_def Let_def)
qed

lemma dir_step_ERR:
  assumes "\<not> dry_run a" "q = d @ [''questions'']" "q @ [n] \<in> set (find_candidate_deletions (disk s) q)"
    "n \<in> set (listdir (disk (dir_step E a d s)) q)"
  shows "0 < cnt ''[ERR]'' (dir_step E a d s)"
proof -
  from assms(3) have "is_dir (disk s) q"
    using not_dir_no_candidates by fastforce
  moreover from assms(3) have "find_candidate_deletions (disk s) q \<noteq> []" by auto
  ultimately have st: "dir_step E a d s = delete_loop E a (find_candidate_deletions (disk s) q)
      (s\<lparr>total_candidates := total_candidates s + length (find_candidate_deletions (disk s) q)\<rparr>)"
    using assms(2) by (simp add: dir_step_def Let_def)
  show ?thesis
    using assms(4) unfolding st by (rule delete_loop_ERR[OF assms(1,3)])
qed

lemma dir_loop_unlinkable_mono:
  "unlinkable E (disk (dir_loop E a ds s)) g \<Longrightarrow> unlinkable E (disk s) g"
  by (induction ds arbitrary: s) (auto dest: dir_step_unlinkable_mono)

lemma dir_loop_is_dir [simp]: "is_dir (disk (dir_loop E a ds s)) q = is_dir (disk s) q"
  by (induction ds arbitrary: s) auto

lemma dir_loop_listdir_mono:
  "set (listdir (disk (dir_loop E a ds s)) q) \<subseteq> set (listdir (disk s) q)"
proof (induction ds arbitrary: s)
  case Nil
  show ?case by simp
next
  case (Cons d ds)
  show ?case using Cons.IH[of "dir_step E a d s"] dir_step_listdir_mono[of E a d s q] by auto
qed

lemma dir_loop_ERR_mono: "cnt ''[ERR]'' s \<le> cnt ''[ERR]'' (dir_loop E a ds s)"
proof (induction ds arbitrary: s)
  case Nil
  show ?case by simp
next
  case (Cons d ds)
  show ?case using Cons.IH[of "dir_step E a d s"] dir_step_ERR_mono[of s E a d] by simp
qed

text \<open>After the loop, what is still a candidate in a directory it visited cannot be unlinked.\<close>

lemma dir_loop_settles:
  assumes "\<not> dry_run a" "d \<in> set ds"
    "f \<in> set (find_candidate_deletions (disk (dir_loop E a ds s)) (d @ [''questions'']))"
  shows "\<not> unlinkable E (disk (dir_loop E a ds s)) f"
  using assms(2,3)
proof (induction ds arbitrary: s)
  case Nil
  then show ?case by simp
next
  case (Cons d0 ds)
  show ?case
  proof (cases "d \<in> set ds")
    case True
    then show ?thesis using Cons.IH[of "dir_step E a d0 s"] Cons.prems(2) by simp
  next
    case False
    with Cons.prems(1) have d: "d = d0" by simp
    from Cons.prems(2) have "f \<in> set (find_candidate_deletions (disk s) (d @ [''questions'']))"
      using dir_loop_listdir_mono[of E a ds "dir_step E a d0 s" "d @ [''questions'']"]
        dir_step_listdir_mono[of E a d0 s "d @ [''questions'']"]
      by (auto simp: candidates_iff)
    with assms(1) have "\<not> unlinkable E (disk (dir_step E a d s)) f" by (rule dir_step_settles)
    then show ?thesis using d dir_loop_unlinkable_mono[of E a ds "dir_step E a d0 s" f] by auto
  qed
qed

text \<open>... and its unlink has failed, with an error line.\<close>

lemma dir_loop_ERR:
  assumes "\<not> dry_run a" "d \<in> set ds"
    "f \<in> set (find_candidate_deletions (disk (dir_loop E a ds s)) (d @ [''questions'']))"
  shows "0 < cnt ''[ERR]'' (dir_loop E a ds s)"
  using assms(2,3)
proof (induction ds arbitrary: s)
  case Nil
  then show ?case by simp
next
  case (Cons d0 ds)
  show ?case
  proof (cases "d \<in> set ds")
    case True
    then show ?thesis using Cons.IH[of "dir_step E a d0 s"] Cons.prems(2) by simp
  next
    case False
    with Cons.prems(1) have d: "d = d0" by simp
    let ?q = "d @ [''questions'']"
    from Cons.prems(2) obtain n where n: "f = ?q @ [n]" "candidate_name n"
      "n \<in> set (listdir (disk (dir_loop E a ds (dir_step E a d0 s))) ?q)"
      by (auto simp: candidates_iff)
    from n(3) have n1: "n \<in> set (listdir (disk (dir_step E a d s)) ?q)"
      using dir_loop_listdir_mono[of E a ds "dir_step E a d0 s" ?q] d by auto
    then have "n \<in> set (listdir (disk s) ?q)"
      using dir_step_listdir_mono[of E a d s ?q] by auto
    with n have "?q @ [n] \<in> set (find_candidate_deletions (disk s) ?q)"
      by (auto simp: candidates_iff)
    from dir_step_ERR[OF assms(1) refl this n1] have "0 < cnt ''[ERR]'' (dir_step E a d s)" .
    then show ?thesis using d dir_loop_ERR_mono[of "dir_step E a d0 s" E a ds] by simp
  qed
qed

text \<open>A loop over directories whose candidates cannot be unlinked changes nothing.\<close>

lemma dir_loop_idle:
  assumes "\<not> dry_run a"
    "\<forall>d\<in>set ds. \<forall>f\<in>set (find_candidate_deletions (disk s) (d @ [''questions''])). \<not> unlinkable E (disk s) f"
  shows "disk (dir_loop E a ds s) = disk s \<and> total_deleted (dir_loop E a ds s) = total_deleted s \<and>
     unlinked (dir_loop E a ds s) = unlinked s"
  using assms(2)
proof (induction ds arbitrary: s)
  case Nil
  show ?case by simp
next
  case (Cons d ds)
  let ?c = "find_candidate_deletions (disk s) (d @ [''questions''])"
  let ?s1 = "s\<lparr>total_candidates := total_candidates s + length ?c\<rparr>"
  from Cons.prems have "\<forall>f\<in>set ?c. \<not> unlinkable E (disk ?s1) f" by simp
  from delete_loop_idle[OF assms(1) this]
  have st: "disk (dir_step E a d s) = disk s" "total_deleted (dir_step E a d s) = total_deleted s"
    "unlinked (dir_step E a d s) = unlinked s"
    by (simp_all add: dir_step_def Let_def)
  with Cons.prems have "\<forall>d'\<in>set ds. \<forall>f\<in>set (find_candidate_deletions (disk (dir_step E a d s)) (d' @ [''questions''])).
     \<not> unlinkable E (disk (dir_step E a d s)) f" by simp
  from Cons.IH[OF this] st show ?case by simp
qed

lemma dir_loop_no_candidates:
  assumes "\<forall>d\<in>set ds. find_candidate_deletions (disk s) (d @ [''questions'']) = []"
  shows "disk (dir_loop E a ds s) = disk s \<and> total_candidates (dir_loop E a ds s) = total_candidates s"
  using assms
proof (induction ds arbitrary: s)
  case Nil
  show ?case by simp
next
  case (Cons d ds)
  from Cons.prems have c: "find_candidate_deletions (disk s) (d @ [''questions'']) = []" by simp
  then have st: "disk (dir_step E a d s) = disk s" "total_candidates (dir_step E a d s) = total_candidates s"
    by (simp_all add: dir_step_def Let_def)
  with Cons.prems have "\<forall>d'\<in>set ds. find_candidate_deletions (disk (dir_step E a d s)) (d' @ [''questions'']) = []"
    by simp
  from Cons.IH[OF this] st show ?case by simp
qed


section \<open>gather_target_dirs\<close>

lemma rglob_star_nonempty: "d \<in> set (rglob_star t) \<Longrightarrow> d \<noteq> []"
  by (cases t) auto

lemma rglob_star_complete: "d \<noteq> [] \<Longrightarrow> lookup t d = Some x \<Longrightarrow> d \<in> set (rglob_star t)"
proof (induction d arbitrary: t)
  case Nil
  then show ?case by simp
next
  case (Cons c cs)
  from Cons.prems(2) obtain es y where t: "t = Dir es" and y: "map_of es c = Some y" "lookup y cs = Some x"
    by (cases t) (auto split: option.splits)
  from y(1) have m: "(c, y) \<in> set es" by (rule map_of_SomeD)
  show ?case
  proof (cases "cs = []")
    case True
    with t m show ?thesis by force
  next
    case False
    from Cons.IH[OF False y(2)] have "cs \<in> set (rglob_star y)" .
    with t m show ?thesis by force
  qed
qed

lemma gather_Inr: "(\<exists>dirs. gather_target_dirs t r = Inr dirs) \<longleftrightarrow> r \<or> is_dir t []"
  by (cases t) (auto simp: gather_target_dirs_def iterdir_def is_dir_def)

lemma gather_iff:
  assumes "gather_target_dirs t r = Inr dirs"
  shows "d \<in> set dirs \<longleftrightarrow> d \<noteq> [] \<and> (r \<or> length d = 1) \<and> is_dir t d \<and> last d \<notin> IGNORE_DIRS"
proof (cases r)
  case True
  with assms have "dirs = filter (\<lambda>d. last d \<notin> IGNORE_DIRS) (filter (is_dir t) (rglob_star t))"
    by (simp add: gather_target_dirs_def)
  moreover have "d \<in> set (rglob_star t) \<and> is_dir t d \<longleftrightarrow> d \<noteq> [] \<and> is_dir t d"
    using rglob_star_nonempty[of d t] rglob_star_complete[of d t]
    by (auto simp: is_dir_def split: option.splits)
  ultimately show ?thesis using True by auto
next
  case False
  with assms obtain es where t: "t = Dir es"
    by (cases t) (auto simp: gather_target_dirs_def iterdir_def)
  with assms False have dirs: "dirs = filter (\<lambda>d. last d \<notin> IGNORE_DIRS) (filter (is_dir t) (map (\<lambda>n. [n]) (map fst es)))"
    by (simp add: gather_target_dirs_def iterdir_def)
  have "d \<in> set (map (\<lambda>n. [n]) (map fst es)) \<and> is_dir t d \<longleftrightarrow> length d = 1 \<and> is_dir t d"
  proof
    assume "d \<in> set (map (\<lambda>n. [n]) (map fst es)) \<and> is_dir t d"
    then show "length d = 1 \<and> is_dir t d" by auto
  next
    assume a: "length d = 1 \<and> is_dir t d"
    then obtain n where n: "d = [n]" by (cases d) auto
    with a t obtain y where "map_of es n = Some y"
      by (auto simp: is_dir_def split: option.splits)
    then have "(n, y) \<in> set es" by (rule map_of_SomeD)
    with n a show "d \<in> set (map (\<lambda>n. [n]) (map fst es)) \<and> is_dir t d" by force
  qed
  with dirs False show ?thesis by auto
qed

lemma gather_same_dirs:
  assumes "\<And>q. is_dir t' q = is_dir t q" "gather_target_dirs t r = Inr dirs"
  shows "\<exists>dirs'. gather_target_dirs t' r = Inr dirs' \<and> set dirs' = set dirs"
proof -
  from assms(2) have "r \<or> is_dir t []" using gather_Inr by blast
  with assms(1) have "r \<or> is_dir t' []" by simp
  then obtain dirs' where d: "gather_target_dirs t' r = Inr dirs'" using gather_Inr by blast
  have "set dirs' = set dirs"
    using gather_iff[OF d] gather_iff[OF assms(2)] assms(1) by blast
  with d show ?thesis by blast
qed

section \<open>The run as a whole\<close>

text \<open>
  Claim C3. A run with \<^verbatim>\<open>--dry-run\<close> leaves the tree as it found it, whatever the
  root and however many candidates there are: no path is unlinked and the counter of
  deletions stays at zero. This holds also for the run that \<^verbatim>\<open>iterdir\<close> aborts.
\<close>

theorem dry_run_no_mutation:
  assumes "dry_run a"
  shows "disk (fst (main E a t)) = t \<and> unlinked (fst (main E a t)) = [] \<and> total_deleted (fst (main E a t)) = 0"
proof (cases "gather_target_dirs t (recursive a)")
  case (Inl e)
  then show ?thesis by (simp add: main_abort)
next
  case (Inr dirs)
  then show ?thesis using assms by (simp add: main_run dir_loop_dry)
qed

theorem dry_run_no_mutation_witness:
  "dry_run \<lparr>root = ''/r'', dry_run = True, recursive = True, quiet = False\<rparr> \<and>
   total_candidates (fst (main no_refusal \<lparr>root = ''/r'', dry_run = True, recursive = True, quiet = False\<rparr> scenario_tree)) = 3 \<and>
   disk (fst (main no_refusal \<lparr>root = ''/r'', dry_run = True, recursive = True, quiet = False\<rparr> scenario_tree)) = scenario_tree"
proof -
  let ?a = "\<lparr>root = ''/r'', dry_run = True, recursive = True, quiet = False\<rparr>"
  have h: "dry_run ?a" by simp
  have c: "total_candidates (fst (main no_refusal ?a scenario_tree)) = 3"
    by code_simp
  from dry_run_no_mutation[OF h, of no_refusal scenario_tree] h c show ?thesis by blast
qed

text \<open>
  Claim C4, as the code has it. With \<^verbatim>\<open>--quiet\<close> no line tagged \<^verbatim>\<open>[INFO]\<close> or
  \<^verbatim>\<open>[SKIP]\<close> is printed, and a run that is not aborted still ends with its one
  \<^verbatim>\<open>[SUMMARY]\<close> line. The lines \<^verbatim>\<open>[DRY]\<close>, \<^verbatim>\<open>[DEL]\<close> and \<^verbatim>\<open>[ERR]\<close> are not
  suppressed: there is one of them for every candidate.
\<close>

theorem quiet_suppresses_info_and_skip:
  assumes "quiet a"
  shows "cnt ''[INFO]'' (fst (main E a t)) = 0 \<and> cnt ''[SKIP]'' (fst (main E a t)) = 0 \<and>
    (snd (main E a t) = None \<longrightarrow>
       cnt ''[SUMMARY]'' (fst (main E a t)) = 1 \<and>
       tagged ''[SUMMARY]'' (last (stdout (fst (main E a t)))) \<and>
       cnt ''[DRY]'' (fst (main E a t)) + cnt ''[DEL]'' (fst (main E a t)) + cnt ''[ERR]'' (fst (main E a t)) =
         total_candidates (fst (main E a t)))"
proof (cases "gather_target_dirs t (recursive a)")
  case (Inl e)
  then show ?thesis using assms by (simp add: main_abort print_info_tags)
next
  case (Inr dirs)
  let ?pre = "print_info a (init t)"
  let ?s = "dir_loop E a (sort dirs) ?pre"
  have l: "tagged ''[SUMMARY]'' (last (stdout (print_summary a ?s)))"
    by (simp add: print_summary_def tagged_def)
  have "cnt ''[DRY]'' ?s + cnt ''[DEL]'' ?s + cnt ''[ERR]'' ?s = total_candidates ?s"
  proof (cases "dry_run a")
    case True
    then show ?thesis using dir_loop_dry_count[OF True, of E "sort dirs" ?pre]
      by (simp add: dir_loop_dry print_info_tags)
  next
    case False
    then show ?thesis using dir_loop_live(2)[OF False, of E "sort dirs" ?pre]
      by (simp add: dir_loop_live(1) print_info_tags)
  qed
  then show ?thesis using assms Inr l
    by (simp add: main_run print_summary_tags dir_loop_quiet_tags print_info_tags)
qed

theorem quiet_suppresses_info_and_skip_witness:
  "quiet \<lparr>root = ''/r'', dry_run = False, recursive = False, quiet = True\<rparr> \<and>
   snd (main refuse_q2 \<lparr>root = ''/r'', dry_run = False, recursive = False, quiet = True\<rparr> scenario_tree) = None \<and>
   cnt ''[INFO]'' (fst (main refuse_q2 \<lparr>root = ''/r'', dry_run = False, recursive = False, quiet = True\<rparr> scenario_tree)) = 0 \<and>
   cnt ''[SKIP]'' (fst (main refuse_q2 \<lparr>root = ''/r'', dry_run = False, recursive = False, quiet = True\<rparr> scenario_tree)) = 0 \<and>
   cnt ''[SUMMARY]'' (fst (main refuse_q2 \<lparr>root = ''/r'', dry_run = False, recursive = False, quiet = True\<rparr> scenario_tree)) = 1 \<and>
   total_candidates (fst (main refuse_q2 \<lparr>root = ''/r'', dry_run = False, recursive = False, quiet = True\<rparr> scenario_tree)) = 2"
proof -
  let ?a = "\<lparr>root = ''/r'', dry_run = False, recursive = False, quiet = True\<rparr>"
  have h: "quiet ?a" by simp
  have n: "snd (main refuse_q2 ?a scenario_tree) = None" by code_simp
  have c: "total_candidates (fst (main refuse_q2 ?a scenario_tree)) = 2" by code_simp
  from quiet_suppresses_info_and_skip[OF h, of refuse_q2 scenario_tree] n h c show ?thesis by blast
qed

text \<open>
  The claim as it is worded fails: with \<^verbatim>\<open>--quiet\<close> a dry run prints its
  \<^verbatim>\<open>[DRY]\<close> lines and a live run its \<^verbatim>\<open>[DEL]\<close> and \<^verbatim>\<open>[ERR]\<close> lines.
\<close>

theorem quiet_action_lines_counterexample:
  "quiet \<lparr>root = ''/r'', dry_run = True, recursive = False, quiet = True\<rparr> \<and>
   stdout (fst (main no_refusal \<lparr>root = ''/r'', dry_run = True, recursive = False, quiet = True\<rparr> scenario_tree)) =
     [''[DRY] Would delete: /r/A/questions/q1.tex'', ''[DRY] Would delete: /r/A/questions/q2.tex'',
      ''[SUMMARY] 2 plain qN.tex file(s) would be deleted.''] \<and>
   stdout (fst (main refuse_q2 \<lparr>root = ''/r'', dry_run = False, recursive = False, quiet = True\<rparr> scenario_tree)) =
     [''[DEL] Deleted: /r/A/questions/q1.tex'', ''[ERR] Could not delete /r/A/questions/q2.tex: OSError'',
      ''[SUMMARY] Deleted 1 plain qN.tex file(s).'']"
  by code_simp





text \<open>
  Claim C7, as the code has it. A second live run on the tree the first one left
  unlinks nothing, leaves the tree as it is and reports 0. It finds no candidate when
  no unlink of the first run failed; a candidate whose unlink failed is found again.
\<close>

theorem second_run_deletes_nothing:
  assumes "\<not> dry_run a" and "gather_target_dirs t (recursive a) = Inr dirs"
  shows "disk (fst (main E a (disk (fst (main E a t))))) = disk (fst (main E a t)) \<and>
         unlinked (fst (main E a (disk (fst (main E a t))))) = [] \<and>
         total_deleted (fst (main E a (disk (fst (main E a t))))) = 0 \<and>
         last (stdout (fst (main E a (disk (fst (main E a t)))))) = ''[SUMMARY] Deleted 0 plain qN.tex file(s).'' \<and>
         (cnt ''[ERR]'' (fst (main E a t)) = 0 \<longrightarrow>
            total_candidates (fst (main E a (disk (fst (main E a t))))) = 0)"
proof -
  let ?pre = "print_info a (init t)"
  let ?s = "dir_loop E a (sort dirs) ?pre"
  let ?mid = "disk ?s"
  have m1: "fst (main E a t) = print_summary a ?s" using assms(2) by (simp add: main_run)
  have "\<And>q. is_dir ?mid q = is_dir t q" by simp
  from gather_same_dirs[OF this assms(2)]
  obtain dirs' where g: "gather_target_dirs ?mid (recursive a) = Inr dirs'" and e: "set dirs' = set dirs"
    by blast
  let ?pre2 = "print_info a (init ?mid)"
  let ?r = "dir_loop E a (sort dirs') ?pre2"
  have m2: "fst (main E a ?mid) = print_summary a ?r" using g by (simp add: main_run)
  have settled: "\<forall>d\<in>set (sort dirs'). \<forall>f\<in>set (find_candidate_deletions (disk ?pre2) (d @ [''questions''])).
      \<not> unlinkable E (disk ?pre2) f"
    using dir_loop_settles[OF assms(1), of _ "sort dirs" _ E ?pre] e by simp
  from dir_loop_idle[OF assms(1) settled]
  have idle: "disk ?r = ?mid" "total_deleted ?r = 0" "unlinked ?r = []" by simp_all
  have none: "total_candidates ?r = 0" if "cnt ''[ERR]'' ?s = 0"
  proof -
    have "\<forall>d\<in>set (sort dirs'). find_candidate_deletions (disk ?pre2) (d @ [''questions'']) = []"
    proof (intro ballI)
      fix d assume "d \<in> set (sort dirs')"
      then have d: "d \<in> set (sort dirs)" using e by simp
      show "find_candidate_deletions (disk ?pre2) (d @ [''questions'']) = []"
      proof (rule ccontr)
        assume "find_candidate_deletions (disk ?pre2) (d @ [''questions'']) \<noteq> []"
        then obtain f where "f \<in> set (find_candidate_deletions ?mid (d @ [''questions'']))"
          by (cases "find_candidate_deletions (disk ?pre2) (d @ [''questions''])") auto
        from dir_loop_ERR[OF assms(1) d this] that show False by simp
      qed
    qed
    from dir_loop_no_candidates[OF this] show ?thesis by simp
  qed
  have s0: "str_nat 0 = ''0''" by simp
  have mid: "disk (fst (main E a t)) = ?mid" by (simp add: m1)
  have err: "cnt ''[ERR]'' (fst (main E a t)) = cnt ''[ERR]'' ?s" by (simp add: m1 print_summary_tags)
  show ?thesis
    unfolding mid err m2 using idle none assms(1)
    by (simp add: print_summary_last s0 del: str_nat.simps)
qed

theorem second_run_deletes_nothing_witness:
  "\<not> dry_run \<lparr>root = ''/r'', dry_run = False, recursive = True, quiet = False\<rparr> \<and>
   gather_target_dirs scenario_tree (recursive \<lparr>root = ''/r'', dry_run = False, recursive = True, quiet = False\<rparr>) =
     Inr [[''A''], [''A'', ''questions''], [''A'', ''B''], [''A'', ''B'', ''questions'']] \<and>
   cnt ''[ERR]'' (fst (main no_refusal \<lparr>root = ''/r'', dry_run = False, recursive = True, quiet = False\<rparr> scenario_tree)) = 0 \<and>
   total_deleted (fst (main no_refusal \<lparr>root = ''/r'', dry_run = False, recursive = True, quiet = False\<rparr> scenario_tree)) = 3 \<and>
   total_candidates (fst (main no_refusal \<lparr>root = ''/r'', dry_run = False, recursive = True, quiet = False\<rparr>
      (disk (fst (main no_refusal \<lparr>root = ''/r'', dry_run = False, recursive = True, quiet = False\<rparr> scenario_tree))))) = 0 \<and>
   total_deleted (fst (main no_refusal \<lparr>root = ''/r'', dry_run = False, recursive = True, quiet = False\<rparr>
      (disk (fst (main no_refusal \<lparr>root = ''/r'', dry_run = False, recursive = True, quiet = False\<rparr> scenario_tree))))) = 0"
proof -
  let ?a = "\<lparr>root = ''/r'', dry_run = False, recursive = True, quiet = False\<rparr>"
  have h1: "\<not> dry_run ?a" by simp
  have h2: "gather_target_dirs scenario_tree (recursive ?a) =
     Inr [[''A''], [''A'', ''questions''], [''A'', ''B''], [''A'', ''B'', ''questions'']]" by code_simp
  have e: "cnt ''[ERR]'' (fst (main no_refusal ?a scenario_tree)) = 0" by code_simp
  have d: "total_deleted (fst (main no_refusal ?a scenario_tree)) = 3" by code_simp
  from second_run_deletes_nothing[OF h1 h2, of no_refusal] e have
    "total_candidates (fst (main no_refusal ?a (disk (fst (main no_refusal ?a scenario_tree))))) = 0"
    "total_deleted (fst (main no_refusal ?a (disk (fst (main no_refusal ?a scenario_tree))))) = 0"
    by blast+
  with h1 h2 e d show ?thesis by blast
qed

text \<open>
  The claim as it is worded fails: a candidate that is a directory survives the first
  run and is a candidate of the second.
\<close>

theorem second_run_candidates_counterexample:
  "\<not> dry_run \<lparr>root = ''/r'', dry_run = False, recursive = False, quiet = False\<rparr> \<and>
   total_candidates (fst (main no_refusal \<lparr>root = ''/r'', dry_run = False, recursive = False, quiet = False\<rparr>
      (disk (fst (main no_refusal \<lparr>root = ''/r'', dry_run = False, recursive = False, quiet = False\<rparr> blocked_tree))))) = 1"
  by code_simp

lemmas run_defs = main_def gather_target_dirs_def iterdir_def is_dir_def dir_step_def delete_step_def
  print_info_def print_summary_def print_def init_def find_candidate_deletions_def glob_def
  unlink_def str_path_def joinpath_def Let_def
  PLAIN_Q_REGEX_match_def PROTECTED_REGEX_match_def tex_dollar_def digits1_def is_digit_def at_dollar_def
  IGNORE_DIRS_def tagged_def cnt_def

text \<open>
  Claim C10. An entry is classified by its name alone: a directory named
  \<^verbatim>\<open>q1.tex\<close> in a questions folder is returned as a candidate and counted, and a
  live run tries to unlink it, which fails and prints an \<^verbatim>\<open>[ERR]\<close> line.
\<close>

theorem directory_named_plain_is_candidate:
  "find_candidate_deletions blocked_tree [''A'', ''questions''] = [[''A'', ''questions'', ''q1.tex'']] \<and>
   is_dir blocked_tree [''A'', ''questions'', ''q1.tex''] \<and>
   unlink E blocked_tree [''A'', ''questions'', ''q1.tex''] = Inl IsADirectoryError \<and>
   total_candidates (fst (main E \<lparr>root = ''/r'', dry_run = True, recursive = False, quiet = False\<rparr> blocked_tree)) = 1 \<and>
   main E \<lparr>root = ''/r'', dry_run = False, recursive = False, quiet = False\<rparr> blocked_tree =
    (\<lparr>disk = blocked_tree,
      stdout = [''[INFO] Root: /r'',
         ''[ERR] Could not delete /r/A/questions/q1.tex: '' @ str_exc E IsADirectoryError [''A'', ''questions'', ''q1.tex''],
         ''[SUMMARY] Deleted 0 plain qN.tex file(s).''],
      total_deleted = 0, total_candidates = 1, unlinked = []\<rparr>, None)"
  by (simp add: run_defs blocked_tree_def)

text \<open>
  Claim C2 on the tree with \<^verbatim>\<open>xmScripts/A/questions/q7.tex\<close>. Without
  \<^verbatim>\<open>--recursive\<close> nothing below \<^verbatim>\<open>xmScripts\<close> is a target. With it, the filter on
  the directory's own name removes \<^verbatim>\<open>xmScripts\<close> and keeps the directories below
  it, and the live run unlinks the file.
\<close>

theorem ignored_descendants_gathered:
  "gather_target_dirs ignored_tree False = Inr [] \<and>
   gather_target_dirs ignored_tree True = Inr [[''xmScripts'', ''A''], [''xmScripts'', ''A'', ''questions'']] \<and>
   main no_refusal \<lparr>root = ''/r'', dry_run = False, recursive = True, quiet = False\<rparr> ignored_tree =
    (\<lparr>disk = Dir [(''xmScripts'', Dir [(''A'', Dir [(''questions'', Dir [])])])],
      stdout = [''[INFO] Root: /r'', ''[INFO] Mode: recursive'',
         ''[DEL] Deleted: /r/xmScripts/A/questions/q7.tex'',
         ''[SUMMARY] Deleted 1 plain qN.tex file(s).''],
      total_deleted = 1, total_candidates = 1, unlinked = [[''xmScripts'', ''A'', ''questions'', ''q7.tex'']]\<rparr>, None)"
  by code_simp

end
